theory Spec2Isabelle
  imports Complex_Main "HOL-Library.Sublist"
begin

section \<open>Text: code points, trimming, case folding\<close>

text \<open>
  The module \<^verbatim>\<open>two_agent_tinder_v2.py\<close> works on Python \<^verbatim>\<open>str\<close> values. A text is
  modelled as a list of code points in the range U+0000 .. U+00FF, one \<^typ>\<open>char\<close> per code
  point: every literal of the module (the pattern vocabulary, the fallback replies, the
  kickoff text, the transcript frame) lives in that range. \<open>cp\<close> is Python's \<^verbatim>\<open>ord\<close>.
  The classifications below are the ones Python applies to code points up to 255:
  \<^verbatim>\<open>str.isspace\<close> (used by \<^verbatim>\<open>str.strip\<close> and by \<^verbatim>\<open>\s\<close>), the decimal digits of \<^verbatim>\<open>\d\<close>, the
  word characters of \<^verbatim>\<open>\w\<close> and \<^verbatim>\<open>\b\<close>, and the lower-casing that \<^verbatim>\<open>re.IGNORECASE\<close>
  compares with.
\<close>

definition cp :: "char \<Rightarrow> nat" where
  "cp c = of_char c"

definition is_space :: "nat \<Rightarrow> bool" where
  "is_space n = ((9 \<le> n \<and> n \<le> 13) \<or> (28 \<le> n \<and> n \<le> 32) \<or> n = 133 \<or> n = 160)"

definition is_decimal :: "nat \<Rightarrow> bool" where
  "is_decimal n = (48 \<le> n \<and> n \<le> 57)"

definition is_word :: "nat \<Rightarrow> bool" where
  "is_word n =
     ((48 \<le> n \<and> n \<le> 57) \<or> (65 \<le> n \<and> n \<le> 90) \<or> n = 95 \<or> (97 \<le> n \<and> n \<le> 122)
      \<or> n = 170 \<or> n = 178 \<or> n = 179 \<or> n = 181 \<or> n = 185 \<or> n = 186
      \<or> (188 \<le> n \<and> n \<le> 190) \<or> (192 \<le> n \<and> n \<le> 214)
      \<or> (216 \<le> n \<and> n \<le> 246) \<or> (248 \<le> n \<and> n \<le> 255))"

definition lower :: "nat \<Rightarrow> nat" where
  "lower n =
     (if (65 \<le> n \<and> n \<le> 90) \<or> (192 \<le> n \<and> n \<le> 214) \<or> (216 \<le> n \<and> n \<le> 222)
      then n + 32 else n)"

text \<open>\<^verbatim>\<open>str.strip()\<close>: drop the leading and the trailing white space.\<close>

definition strip :: "string \<Rightarrow> string" where
  "strip s =
     rev (dropWhile (\<lambda>c. is_space (cp c)) (rev (dropWhile (\<lambda>c. is_space (cp c)) s)))"

text \<open>\<^verbatim>\<open>needle in haystack\<close> on strings, as a function that computes.\<close>

fun contains :: "string \<Rightarrow> string \<Rightarrow> bool" where
  "contains [] needle = (needle = [])"
| "contains (c # cs) needle = (prefix needle (c # cs) \<or> contains cs needle)"

section \<open>Regular expressions of the two vocabularies\<close>

text \<open>
  The fragment of Python's \<^verbatim>\<open>re\<close> syntax that the module's patterns use: literals,
  character sets, \<^verbatim>\<open>\d\<close>, \<^verbatim>\<open>\s\<close>, the word boundary \<^verbatim>\<open>\b\<close>, concatenation, alternation,
  \<^verbatim>\<open>?\<close>, and \<^verbatim>\<open>*\<close> and \<^verbatim>\<open>{m,n}\<close> applied to a single-character item (the only way the
  patterns apply them). Literals and set members are code points.
\<close>

datatype atom = Lit nat | Cls "nat list" | Digit | Space

datatype re =
    Atom atom
  | Eps
  | WordB
  | Seq re re
  | Alt re re
  | Opt re
  | Star atom
  | Rep nat nat atom

text \<open>
  \<^verbatim>\<open>re.compile(..., flags=re.IGNORECASE)\<close> stores every literal and every set member
  lower-cased; the matcher lower-cases the subject's character and compares.
\<close>

fun compile_atom :: "atom \<Rightarrow> atom" where
  "compile_atom (Lit p) = Lit (lower p)"
| "compile_atom (Cls ps) = Cls (map lower ps)"
| "compile_atom Digit = Digit"
| "compile_atom Space = Space"

fun compile_ignorecase :: "re \<Rightarrow> re" where
  "compile_ignorecase (Atom a) = Atom (compile_atom a)"
| "compile_ignorecase Eps = Eps"
| "compile_ignorecase WordB = WordB"
| "compile_ignorecase (Seq r1 r2) = Seq (compile_ignorecase r1) (compile_ignorecase r2)"
| "compile_ignorecase (Alt r1 r2) = Alt (compile_ignorecase r1) (compile_ignorecase r2)"
| "compile_ignorecase (Opt r) = Opt (compile_ignorecase r)"
| "compile_ignorecase (Star a) = Star (compile_atom a)"
| "compile_ignorecase (Rep lo hi a) = Rep lo hi (compile_atom a)"

fun atom_ok :: "atom \<Rightarrow> nat \<Rightarrow> bool" where
  "atom_ok (Lit p) n = (lower n = p)"
| "atom_ok (Cls ps) n = (lower n \<in> set ps)"
| "atom_ok Digit n = is_decimal n"
| "atom_ok Space n = is_space n"

text \<open>
  A position in the subject: the code point before it (if any) and the rest of the
  subject from it on. That is all \<^verbatim>\<open>\b\<close> looks at.
\<close>

type_synonym pos = "nat option \<times> nat list"

fun at_boundary :: "pos \<Rightarrow> bool" where
  "at_boundary (p, s) =
     ((case p of None \<Rightarrow> False | Some n \<Rightarrow> is_word n)
      \<noteq> (case s of [] \<Rightarrow> False | n # _ \<Rightarrow> is_word n))"

text \<open>The positions reached by consuming 0, 1, 2, ... characters that the item accepts.\<close>

fun spans :: "atom \<Rightarrow> pos \<Rightarrow> pos list" where
  "spans a (p, []) = [(p, [])]"
| "spans a (p, n # ns) = (p, n # ns) # (if atom_ok a n then spans a (Some n, ns) else [])"

text \<open>
  \<open>rmatch r st\<close> lists the positions at which a match of \<open>r\<close> that starts at \<open>st\<close> can
  end, in the order in which the backtracking matcher tries them (greedy first).
\<close>

fun rmatch :: "re \<Rightarrow> pos \<Rightarrow> pos list" where
  "rmatch (Atom a) (p, s) =
     (case s of [] \<Rightarrow> [] | n # ns \<Rightarrow> if atom_ok a n then [(Some n, ns)] else [])"
| "rmatch Eps st = [st]"
| "rmatch WordB st = (if at_boundary st then [st] else [])"
| "rmatch (Seq r1 r2) st = concat (map (rmatch r2) (rmatch r1 st))"
| "rmatch (Alt r1 r2) st = rmatch r1 st @ rmatch r2 st"
| "rmatch (Opt r) st = rmatch r st @ [st]"
| "rmatch (Star a) st = rev (spans a st)"
| "rmatch (Rep lo hi a) st = rev (take (Suc hi - lo) (drop lo (spans a st)))"

text \<open>\<^verbatim>\<open>pattern.search(s)\<close> as a truth value: some match starts at some position.\<close>

fun search_from :: "re \<Rightarrow> pos \<Rightarrow> bool" where
  "search_from r (p, []) = (rmatch r (p, []) \<noteq> [])"
| "search_from r (p, n # ns) = (rmatch r (p, n # ns) \<noteq> [] \<or> search_from r (Some n, ns))"

definition re_search :: "re \<Rightarrow> string \<Rightarrow> bool" where
  "re_search r s = search_from r (None, map cp s)"

fun lits :: "string \<Rightarrow> re" where
  "lits [] = Eps"
| "lits (c # cs) = Seq (Atom (Lit (cp c))) (lits cs)"

fun seqs :: "re list \<Rightarrow> re" where
  "seqs [] = Eps"
| "seqs (r # rs) = Seq r (seqs rs)"

fun alts :: "re list \<Rightarrow> re" where
  "alts [] = Atom (Cls [])"
| "alts [r] = r"
| "alts (r # rs) = Alt r (alts rs)"

text \<open>
  The five strings of \<^verbatim>\<open>MEETING_PATTERNS\<close>, parsed. The letters outside ASCII are
  e-acute \<open>0xE9\<close>, a-tilde \<open>0xE3\<close>, c-cedilla \<open>0xE7\<close>, a-acute \<open>0xE1\<close> and a-grave \<open>0xE0\<close>.
  In the fourth and the fifth string the alternation is at top level, so \<^verbatim>\<open>\b\<close> belongs
  to the first and to the last alternative only.
\<close>

definition MEETING_PATTERNS :: "re list" where
  "MEETING_PATTERNS =
    [ seqs [WordB,
        alts [lits ''encontro'', lits ''encontrar'',
              seqs [lits ''ver'', Opt (Atom (Cls (map cp ''- ''))), lits ''nos''],
              lits ''combinar'', lits ''marcar'',
              seqs [lits ''vamos '', alts [lits ''tomar'', lits ''beber'', lits ''jantar'']],
              lits (''caf'' @ [CHR 0xE9]), lits ''jantar'',
              lits (''almo'' @ [CHR 0xE7] @ ''o'')],
        WordB],
      seqs [WordB,
        alts [lits ''hoje'', lits (''amanh'' @ [CHR 0xE3]), lits ''segunda'',
              lits (''ter'' @ [CHR 0xE7] @ ''a''), lits (''ter'' @ [CHR 0xE7] @ ''a-feira''),
              lits ''quarta'', lits ''quinta'', lits ''quinta-feira'', lits ''sexta'',
              lits (''s'' @ [CHR 0xE1] @ ''bado''), lits ''domingo''],
        WordB],
      seqs [WordB, Atom (Lit 0xE0), Opt (Atom (Lit (cp CHR ''s''))), Star Space,
            Rep 1 2 Digit, Atom (Cls (map cp '':h'')), Rep 0 2 Digit, WordB],
      alts [seqs [WordB, lits ''19:00''], lits ''18:30'', lits ''20:00'',
            seqs [lits ''17:30'', WordB]],
      alts [seqs [WordB, lits ''funciona''], lits ''pode ser'', lits ''combinado'',
            lits ''feito'', lits ''perfeito'', seqs [lits ''fechado'', WordB]] ]"

text \<open>
  \<^verbatim>\<open>re.compile("|".join(MEETING_PATTERNS), flags=re.IGNORECASE)\<close> and
  \<^verbatim>\<open>re.compile(r"\b(combinado|feito|perfeito|fechado|ok)\b", flags=re.IGNORECASE)\<close>
\<close>

definition MEETING_RE :: re where
  "MEETING_RE = compile_ignorecase (alts MEETING_PATTERNS)"

definition ACCEPTANCE_RE :: re where
  "ACCEPTANCE_RE =
     compile_ignorecase
       (seqs [WordB,
          alts [lits ''combinado'', lits ''feito'', lits ''perfeito'', lits ''fechado'',
                lits ''ok''],
          WordB])"

section \<open>Data model\<close>

record AgentConfig =
  name :: string
  system_preamble :: string
  model :: string
  base_url :: "string option"
  api_key_env :: "string option"
  temperature :: real
  max_tokens :: int
  initial_prompt :: "string option"

record RunConfig =
  max_messages :: int
  turn_delay_s :: real
  print_transcript :: bool

record ConversationTurn =
  speaker :: string
  turn_text :: string

section \<open>The termination detector\<close>

definition meeting_agreed :: "ConversationTurn list \<Rightarrow> bool" where
  "meeting_agreed turns =
     (if length turns < 2 then False
      else let previous = turn_text (turns ! (length turns - 2));
               latest = turn_text (turns ! (length turns - 1));
               intent = re_search MEETING_RE previous;
               acceptance = (re_search ACCEPTANCE_RE latest \<or> re_search MEETING_RE latest)
           in intent \<and> acceptance)"

section \<open>The provider adapter\<close>

text \<open>
  What \<^verbatim>\<open>Provider.__init__\<close> reads from the process: whether the \<^verbatim>\<open>openai\<close> package was
  imported (\<^verbatim>\<open>HAS_OPENAI\<close>), the environment variables, and whether the constructor
  \<^verbatim>\<open>OpenAI(api_key=..., base_url=...)\<close> returns (\<open>True\<close>) or raises (\<open>False\<close>).
\<close>

record Env =
  HAS_OPENAI :: bool
  getenv :: "string \<Rightarrow> string option"
  OpenAI_ok :: "string \<Rightarrow> string option \<Rightarrow> bool"

text \<open>A client, when there is one, is known by the key and the base URL it was built with.\<close>

record Provider =
  cfg :: AgentConfig
  client :: "(string \<times> string option) option"
  enabled :: bool

definition Provider_init :: "Env \<Rightarrow> AgentConfig \<Rightarrow> Provider" where
  "Provider_init env c =
     (let key = (case api_key_env c of
                   None \<Rightarrow> None
                 | Some v \<Rightarrow> if v = [] then None else getenv env v);
          p0 = \<lparr>cfg = c, client = None, enabled = False\<rparr>
      in case key of
           None \<Rightarrow> p0
         | Some k \<Rightarrow>
             if HAS_OPENAI env \<and> k \<noteq> [] then
               (let url = (case base_url c of
                             None \<Rightarrow> None
                           | Some u \<Rightarrow> if u = [] then None else Some u)
                in if OpenAI_ok env k url
                   then p0\<lparr>client := Some (k, url), enabled := True\<rparr>
                   else p0\<lparr>enabled := False\<rparr>)
             else p0)"

record Message =
  role :: string
  content :: string

text \<open>
  The outcome of one \<^verbatim>\<open>chat.completions.create\<close> request together with the reading of
  its result inside the \<^verbatim>\<open>try\<close> block: an exception of class \<^verbatim>\<open>Exception\<close> (given by its
  \<^verbatim>\<open>str\<close>), or a response with its list of choices, each carrying a content that may be
  \<^verbatim>\<open>None\<close>. The endpoint is opaque: \<open>Remote\<close> is any function from the request to
  an outcome.
\<close>

datatype Response = Raises string | Choices "string option list"

type_synonym Remote = "AgentConfig \<Rightarrow> Message list \<Rightarrow> Response"

definition last_user :: "Message list \<Rightarrow> string" where
  "last_user messages =
     (case filter (\<lambda>m. role m = ''user'') (rev messages) of
        [] \<Rightarrow> []
      | m # _ \<Rightarrow> content m)"

definition suggestion_meeting :: string where
  "suggestion_meeting =
     ''Vamos combinar um caf'' @ [CHR 0xE9] @ '' quinta '' @ [CHR 0xE0] @ ''s 19:00?''"

definition suggestion_generic :: string where
  "suggestion_generic = ''Adoro a energia. Que tal marcarmos algo leve para nos conhecermos?''"

definition stub :: "Message list \<Rightarrow> string \<Rightarrow> string" where
  "stub messages note =
     (let suggestion = (if re_search MEETING_RE (last_user messages)
                        then suggestion_meeting else suggestion_generic)
      in strip (suggestion @ '' '' @ note))"

definition generate :: "Remote \<Rightarrow> Provider \<Rightarrow> Message list \<Rightarrow> string" where
  "generate remote p messages =
     (if enabled p \<and> client p \<noteq> None then
        (case remote (cfg p) messages of
           Raises exc \<Rightarrow> stub messages (''(provider error: '' @ exc @ '')'')
         | Choices cs \<Rightarrow>
             (let content = (case cs of [] \<Rightarrow> Some [] | c # _ \<Rightarrow> c)
              in strip (case content of None \<Rightarrow> [] | Some s \<Rightarrow> s)))
      else stub messages ''(provider unavailable)'')"

section \<open>The orchestrator\<close>

datatype error = KeyError string | OSError string

text \<open>
  \<open>console\<close> is the standard output, one element per printed line; the other fields are
  the attributes of \<^verbatim>\<open>TwoAgentChat\<close>. The dictionary \<^verbatim>\<open>providers\<close> is built from two
  key-value pairs, the second written after the first.
\<close>

record TwoAgentChat =
  agents :: "AgentConfig \<times> AgentConfig"
  run :: RunConfig
  providers :: "string \<Rightarrow> Provider option"
  turns :: "ConversationTurn list"
  console :: "string list"

definition TwoAgentChat_init ::
  "Env \<Rightarrow> AgentConfig \<Rightarrow> AgentConfig \<Rightarrow> RunConfig \<Rightarrow> error + TwoAgentChat" where
  "TwoAgentChat_init env agent_a agent_b r =
     Inr \<lparr>agents = (agent_a, agent_b),
          run = r,
          providers = (Map.empty(name agent_a \<mapsto> Provider_init env agent_a))
                        (name agent_b \<mapsto> Provider_init env agent_b),
          turns = [],
          console = []\<rparr>"

definition default_kickoff :: string where
  "default_kickoff =
     ''Inicia a conversa com uma abertura natural e descontra'' @ [CHR 0xED] @ ''da.''"

definition kickoff_of :: "AgentConfig \<Rightarrow> string" where
  "kickoff_of spk =
     (case initial_prompt spk of
        None \<Rightarrow> default_kickoff
      | Some s \<Rightarrow> if s = [] then default_kickoff else s)"

definition build_messages_for :: "TwoAgentChat \<Rightarrow> AgentConfig \<Rightarrow> Message list" where
  "build_messages_for c spk =
     (let messages = [\<lparr>role = ''system'', content = system_preamble spk\<rparr>]
      in if turns c = [] then messages @ [\<lparr>role = ''user'', content = kickoff_of spk\<rparr>]
         else messages @
              map (\<lambda>t. \<lparr>role = (if speaker t = name spk then ''assistant'' else ''user''),
                        content = turn_text t\<rparr>)
                  (turns c))"

definition append_turn :: "TwoAgentChat \<Rightarrow> AgentConfig \<Rightarrow> string \<Rightarrow> TwoAgentChat" where
  "append_turn c spk txt =
     (let cleaned = strip txt
      in c\<lparr>turns := turns c @ [\<lparr>speaker = name spk, turn_text = cleaned\<rparr>],
           console := (if print_transcript (run c)
                       then console c @ [name spk @ '': '' @ cleaned]
                       else console c)\<rparr>)"

text \<open>
  One pass through the body of the \<^verbatim>\<open>while\<close> loop, from building the context to
  appending the turn: \<^verbatim>\<open>reply = provider.generate(prompt_messages) or ""\<close>, then
  \<^verbatim>\<open>self.append_turn(agent, reply or "...")\<close>.
\<close>

definition take_turn :: "Remote \<Rightarrow> TwoAgentChat \<Rightarrow> AgentConfig \<Rightarrow> Provider \<Rightarrow> TwoAgentChat" where
  "take_turn remote c agent provider =
     (let prompt_messages = build_messages_for c agent;
          reply = generate remote provider prompt_messages
      in append_turn c agent (if reply = [] then ''...'' else reply))"


definition agent_at :: "AgentConfig \<times> AgentConfig \<Rightarrow> nat \<Rightarrow> AgentConfig" where
  "agent_at ags current_index = (if current_index = 0 then fst ags else snd ags)"

text \<open>
  The \<^verbatim>\<open>while\<close> loop of \<^verbatim>\<open>run_until_meeting_or_max\<close>, with its two local variables as
  arguments. \<open>remotes k\<close> is what the endpoint does at the request of turn \<open>k\<close>.
  A name missing from the dictionary \<^verbatim>\<open>providers\<close> raises \<^verbatim>\<open>KeyError\<close>.
  \<^verbatim>\<open>time.sleep\<close> changes nothing that is modelled.
\<close>

function run_loop ::
  "(nat \<Rightarrow> Remote) \<Rightarrow> TwoAgentChat \<Rightarrow> nat \<Rightarrow> nat \<Rightarrow> error + TwoAgentChat" where
  "run_loop remotes c current_index turns_taken =
     (if int turns_taken < max_messages (run c) then
        (let agent = agent_at (agents c) current_index
         in case providers c (name agent) of
              None \<Rightarrow> Inl (KeyError (name agent))
            | Some provider \<Rightarrow>
                (let c' = take_turn (remotes turns_taken) c agent provider
                 in if meeting_agreed (turns c') then Inr c'
                    else run_loop remotes c' (1 - current_index) (Suc turns_taken)))
      else Inr c)"
  by pat_completeness auto
termination
  by (relation "measure (\<lambda>(remotes, c, i, k). nat (max_messages (run c) - int k))")
     (auto simp: take_turn_def append_turn_def Let_def)

declare run_loop.simps [simp del]

definition run_until_meeting_or_max ::
  "(nat \<Rightarrow> Remote) \<Rightarrow> TwoAgentChat \<Rightarrow> error + TwoAgentChat" where
  "run_until_meeting_or_max remotes c = run_loop remotes c 0 0"

text \<open>
  The first two steps of \<^verbatim>\<open>main\<close>: \<^verbatim>\<open>chat = TwoAgentChat(agent_a, agent_b, run)\<close>, then
  \<^verbatim>\<open>chat.run_until_meeting_or_max()\<close>.
\<close>

definition construct_and_run ::
  "Env \<Rightarrow> AgentConfig \<Rightarrow> AgentConfig \<Rightarrow> RunConfig \<Rightarrow> (nat \<Rightarrow> Remote)
     \<Rightarrow> error + TwoAgentChat" where
  "construct_and_run env agent_a agent_b r remotes =
     (case TwoAgentChat_init env agent_a agent_b r of
        Inl e \<Rightarrow> Inl e
      | Inr c \<Rightarrow> run_until_meeting_or_max remotes c)"

section \<open>The transcript writer\<close>

text \<open>
  The file system: the content of each existing file, and the paths that
  \<^verbatim>\<open>open(path, "w")\<close> can open. \<open>now\<close> is the text of
  \<^verbatim>\<open>datetime.now().strftime("%Y-%m-%d %H:%M")\<close>.
\<close>

record FileSystem =
  files :: "string \<Rightarrow> string option"
  can_open :: "string \<Rightarrow> bool"

definition render_turn :: "ConversationTurn \<Rightarrow> string" where
  "render_turn t = ''**'' @ speaker t @ ''**: '' @ strip (turn_text t) @ [CHR 0x0A, CHR 0x0A]"

definition document :: "ConversationTurn list \<Rightarrow> string \<Rightarrow> string \<Rightarrow> string option \<Rightarrow> string" where
  "document ts now title subtitle =
     ''# '' @ title @ [CHR 0x0A, CHR 0x0A]
     @ (case subtitle of
          None \<Rightarrow> []
        | Some s \<Rightarrow> if s = [] then [] else ''_'' @ s @ ''_'' @ [CHR 0x0A, CHR 0x0A])
     @ ''> Transcript gerado em '' @ now @ [CHR 0x0A, CHR 0x0A] @ ''---'' @ [CHR 0x0A, CHR 0x0A]
     @ concat (map render_turn ts)"

definition export_markdown ::
  "TwoAgentChat \<Rightarrow> FileSystem \<Rightarrow> string \<Rightarrow> string \<Rightarrow> string \<Rightarrow> string option
     \<Rightarrow> error + (TwoAgentChat \<times> FileSystem)" where
  "export_markdown c fs now path title subtitle =
     (if can_open fs path
      then Inr (c, fs\<lparr>files := (files fs)(path \<mapsto> document (turns c) now title subtitle)\<rparr>)
      else Inl (OSError path))"

section \<open>Notions the claims are stated with\<close>

text \<open>The object that the constructor returns, and the history of a finished run.\<close>

definition fresh_chat :: "Env \<Rightarrow> AgentConfig \<Rightarrow> AgentConfig \<Rightarrow> RunConfig \<Rightarrow> TwoAgentChat" where
  "fresh_chat env agent_a agent_b r =
     \<lparr>agents = (agent_a, agent_b),
      run = r,
      providers = (Map.empty(name agent_a \<mapsto> Provider_init env agent_a))
                    (name agent_b \<mapsto> Provider_init env agent_b),
      turns = [],
      console = []\<rparr>"

definition turns_of :: "error + TwoAgentChat \<Rightarrow> ConversationTurn list option" where
  "turns_of res = (case res of Inl e \<Rightarrow> None | Inr c \<Rightarrow> Some (turns c))"

text \<open>The two replies of an adapter without a client.\<close>

definition generic_reply :: string where
  "generic_reply = suggestion_generic @ '' (provider unavailable)''"

definition meeting_reply :: string where
  "meeting_reply = suggestion_meeting @ '' (provider unavailable)''"

text \<open>The history of \<open>n\<close> turns in which the agents alternate and every text is the generic reply.\<close>

definition fallback_turns :: "AgentConfig \<times> AgentConfig \<Rightarrow> nat \<Rightarrow> ConversationTurn list" where
  "fallback_turns ags n =
     map (\<lambda>j. \<lparr>speaker = name (agent_at ags (j mod 2)), turn_text = generic_reply\<rparr>) [0..<n]"

section \<open>Auxiliary notions\<close>

text \<open>Two code points are the same letter up to case; two positions are so pointwise.\<close>

definition ceq :: "nat \<Rightarrow> nat \<Rightarrow> bool" where
  "ceq n m = (lower n = lower m)"

definition peq :: "pos \<Rightarrow> pos \<Rightarrow> bool" where
  "peq st st' = (rel_option ceq (fst st) (fst st') \<and> list_all2 ceq (snd st) (snd st'))"

text \<open>The definitions that unfold when a search is evaluated on a given text.\<close>

named_theorems re_eval

declare re_search_def [re_eval] MEETING_RE_def [re_eval] MEETING_PATTERNS_def [re_eval]
  ACCEPTANCE_RE_def [re_eval] is_word_def [re_eval] is_space_def [re_eval]
  is_decimal_def [re_eval] lower_def [re_eval] cp_def [re_eval]

section \<open>Example inputs\<close>

text \<open>The two agents of \<^verbatim>\<open>main\<close>, with shortened instructions.\<close>

definition ex_agent_a :: AgentConfig where
  "ex_agent_a =
     \<lparr>name = ''Homem (40)'', system_preamble = ''You are a playful Portuguese man.'',
      model = ''small-model'', base_url = None, api_key_env = Some ''OPENAI_API_KEY'',
      temperature = 4 / 5, max_tokens = 300,
      initial_prompt = Some ''Cria uma abertura leve e divertida.''\<rparr>"

definition ex_agent_b :: AgentConfig where
  "ex_agent_b =
     \<lparr>name = ''Mulher (35)'', system_preamble = ''You are a witty Portuguese woman.'',
      model = ''small-model'', base_url = None, api_key_env = Some ''OPENAI_API_KEY'',
      temperature = 4 / 5, max_tokens = 300, initial_prompt = None\<rparr>"

text \<open>A process without credentials, and one with a key for which the client is built.\<close>

definition ex_env_none :: Env where
  "ex_env_none = \<lparr>HAS_OPENAI = True, getenv = (\<lambda>v. None), OpenAI_ok = (\<lambda>k u. True)\<rparr>"

definition ex_env_key :: Env where
  "ex_env_key =
     \<lparr>HAS_OPENAI = True,
      getenv = (\<lambda>v. if v = ''OPENAI_API_KEY'' then Some ''sk-test'' else None),
      OpenAI_ok = (\<lambda>k u. True)\<rparr>"

text \<open>An endpoint whose every request raises.\<close>

definition ex_remote_raises :: Remote where
  "ex_remote_raises = (\<lambda>c ms. Raises ''timeout'')"

definition ex_messages :: "Message list" where
  "ex_messages =
     [\<lparr>role = ''system'', content = ''You are a playful Portuguese man.''\<rparr>,
      \<lparr>role = ''user'', content = ''Como est'' @ [CHR 0xE1] @ ''s?''\<rparr>]"

text \<open>Scenarios A and B of the specification.\<close>

definition scenario_A :: "ConversationTurn list" where
  "scenario_A =
     [\<lparr>speaker = ''Homem (40)'',
       turn_text = ''Vamos marcar caf'' @ [CHR 0xE9] @ '' quinta '' @ [CHR 0xE0] @ ''s 19:00?''\<rparr>,
      \<lparr>speaker = ''Mulher (35)'', turn_text = ''Perfeito, combinado!''\<rparr>]"

definition scenario_B :: "ConversationTurn list" where
  "scenario_B =
     [\<lparr>speaker = ''Homem (40)'', turn_text = ''Como est'' @ [CHR 0xE1] @ ''s?''\<rparr>,
      \<lparr>speaker = ''Mulher (35)'', turn_text = ''Bem, e tu?''\<rparr>]"

text \<open>A file system with one file, in which every path can be opened.\<close>

definition ex_fs :: FileSystem where
  "ex_fs =
     \<lparr>files = (\<lambda>q. if q = ''tinder_conversation.md'' then Some ''old content'' else None),
      can_open = (\<lambda>q. True)\<rparr>"

definition ex_chat_B :: TwoAgentChat where
  "ex_chat_B =
     \<lparr>agents = (ex_agent_a, ex_agent_b),
      run = \<lparr>max_messages = 2, turn_delay_s = 0, print_transcript = False\<rparr>,
      providers = (Map.empty(name ex_agent_a \<mapsto> Provider_init ex_env_none ex_agent_a))
                    (name ex_agent_b \<mapsto> Provider_init ex_env_none ex_agent_b),
      turns = scenario_B,
      console = []\<rparr>"

text \<open>Run settings with a given budget; endpoints for every turn.\<close>

definition ex_run :: "int \<Rightarrow> RunConfig" where
  "ex_run n = \<lparr>max_messages = n, turn_delay_s = 0, print_transcript = True\<rparr>"

definition ex_remotes :: "nat \<Rightarrow> Remote" where
  "ex_remotes = (\<lambda>k. ex_remote_raises)"

text \<open>An endpoint that answers every request with a single choice of white space.\<close>

definition ex_remotes_blank :: "nat \<Rightarrow> Remote" where
  "ex_remotes_blank = (\<lambda>k c ms. Choices [Some ''   ''])"

text \<open>
  Variants of the two agents: a second agent with the name of the first, a first agent
  whose opening instruction speaks of a coffee, a second agent with an opening
  instruction of its own.
\<close>

definition ex_twin_b :: AgentConfig where
  "ex_twin_b = ex_agent_b\<lparr>name := ''Homem (40)''\<rparr>"

definition ex_agent_inviting :: AgentConfig where
  "ex_agent_inviting =
     ex_agent_a\<lparr>initial_prompt := Some (''Convida para um caf'' @ [CHR 0xE9] @ ''.'')\<rparr>"

definition ex_agent_b_seeded :: AgentConfig where
  "ex_agent_b_seeded = ex_agent_b\<lparr>initial_prompt := Some ''Responde com humor.''\<rparr>"


section \<open>Trimming\<close>

lemma strip_Nil [simp]: "strip [] = []"
  by (simp add: strip_def)

lemma strip_prefix: "\<exists>w. dropWhile (\<lambda>c. is_space (cp c)) s = strip s @ w"
proof -
  let ?t = "dropWhile (\<lambda>c. is_space (cp c)) s"
  have "rev ?t = takeWhile (\<lambda>c. is_space (cp c)) (rev ?t) @ dropWhile (\<lambda>c. is_space (cp c)) (rev ?t)"
    by simp
  then have "?t = rev (dropWhile (\<lambda>c. is_space (cp c)) (rev ?t)) @ rev (takeWhile (\<lambda>c. is_space (cp c)) (rev ?t))"
    by (metis rev_append rev_rev_ident)
  then show ?thesis unfolding strip_def by blast
qed

lemma strip_hd: "strip s \<noteq> [] \<Longrightarrow> \<not> is_space (cp (hd (strip s)))"
proof -
  assume ne: "strip s \<noteq> []"
  obtain w where w: "dropWhile (\<lambda>c. is_space (cp c)) s = strip s @ w"
    using strip_prefix by blast
  then have "dropWhile (\<lambda>c. is_space (cp c)) s \<noteq> []" using ne by simp
  then have "\<not> is_space (cp (hd (dropWhile (\<lambda>c. is_space (cp c)) s)))"
    by (rule hd_dropWhile)
  then show ?thesis using w ne by simp
qed

lemma strip_last: "strip s \<noteq> [] \<Longrightarrow> \<not> is_space (cp (last (strip s)))"
proof -
  assume ne: "strip s \<noteq> []"
  let ?u = "dropWhile (\<lambda>c. is_space (cp c)) (rev (dropWhile (\<lambda>c. is_space (cp c)) s))"
  have "?u \<noteq> []" using ne by (simp add: strip_def)
  then have "\<not> is_space (cp (hd ?u))" by (rule hd_dropWhile)
  moreover have "last (strip s) = hd ?u"
    using \<open>?u \<noteq> []\<close> by (simp add: strip_def last_rev)
  ultimately show ?thesis by simp
qed

lemma strip_id:
  assumes "s \<noteq> []" "\<not> is_space (cp (hd s))" "\<not> is_space (cp (last s))"
  shows "strip s = s"
proof -
  have a: "dropWhile (\<lambda>c. is_space (cp c)) s = s"
    using assms(1,2) by (cases s) auto
  have "rev s \<noteq> []" "\<not> is_space (cp (hd (rev s)))"
    using assms(1,3) by (simp_all add: hd_rev)
  then have b: "dropWhile (\<lambda>c. is_space (cp c)) (rev s) = rev s"
    by (cases "rev s") auto
  show ?thesis by (simp add: strip_def a b)
qed

lemma strip_idem: "strip (strip s) = strip s"
proof (cases "strip s = []")
  case True
  then show ?thesis by simp
next
  case False
  then show ?thesis by (intro strip_id strip_hd strip_last)
qed

lemma strip_frame:
  assumes "\<not> is_space (cp a)" "\<not> is_space (cp b)"
  shows "strip (a # m @ [b]) = a # m @ [b]"
  by (rule strip_id) (use assms in simp_all)

lemma contains_mid: "contains (xs @ needle @ ys) needle"
proof (induction xs)
  case Nil
  show ?case
  proof (cases "needle @ ys")
    case Nil
    then show ?thesis by simp
  next
    case (Cons a l)
    have "prefix needle (needle @ ys)" by simp
    then show ?thesis by (simp add: Cons)
  qed
next
  case (Cons x xs)
  then show ?case by simp
qed

section \<open>Replies of the provider adapter\<close>

lemma strip_eq_Nil: "strip s = [] \<Longrightarrow> \<forall>c\<in>set s. is_space (cp c)"
proof -
  assume e: "strip s = []"
  let ?P = "\<lambda>c. is_space (cp c)"
  let ?t = "dropWhile ?P s"
  have "rev (dropWhile ?P (rev ?t)) = []"
    using e unfolding strip_def .
  then have "dropWhile ?P (rev ?t) = []"
    by (simp only: rev_is_Nil_conv)
  then have "\<forall>c\<in>set (rev ?t). ?P c"
    by (simp only: dropWhile_eq_Nil_conv)
  then have all: "\<forall>c\<in>set ?t. ?P c"
    by (simp only: set_rev)
  have "?t = []"
  proof (rule ccontr)
    assume ne: "?t \<noteq> []"
    then have "\<not> ?P (hd ?t)" by (rule hd_dropWhile)
    moreover have "hd ?t \<in> set ?t" using ne by (rule hd_in_set)
    ultimately show False using all by blast
  qed
  then show ?thesis by (simp only: dropWhile_eq_Nil_conv)
qed

lemma suggestion_hd:
  "\<not> is_space (cp (hd suggestion_meeting))" "\<not> is_space (cp (hd suggestion_generic))"
  "suggestion_meeting \<noteq> []" "suggestion_generic \<noteq> []"
  by (simp_all add: suggestion_meeting_def suggestion_generic_def is_space_def cp_def)

lemma stub_eq:
  assumes "note \<noteq> []" "\<not> is_space (cp (last note))"
  shows "stub messages note =
           (if re_search MEETING_RE (last_user messages)
            then suggestion_meeting else suggestion_generic) @ '' '' @ note"
proof -
  let ?s = "if re_search MEETING_RE (last_user messages)
            then suggestion_meeting else suggestion_generic"
  have "strip (?s @ '' '' @ note) = ?s @ '' '' @ note"
  proof (rule strip_id)
    show "?s @ '' '' @ note \<noteq> []" by simp
    show "\<not> is_space (cp (hd (?s @ '' '' @ note)))"
      using suggestion_hd by (simp add: hd_append)
    show "\<not> is_space (cp (last (?s @ '' '' @ note)))"
      using assms by simp
  qed
  then show ?thesis by (simp add: stub_def Let_def)
qed

lemma stub_not_Nil: "stub messages note \<noteq> []"
proof
  assume "stub messages note = []"
  then have "\<forall>c\<in>set ((if re_search MEETING_RE (last_user messages)
            then suggestion_meeting else suggestion_generic) @ '' '' @ note). is_space (cp c)"
    unfolding stub_def Let_def by (rule strip_eq_Nil)
  then have "is_space (cp (hd (if re_search MEETING_RE (last_user messages)
            then suggestion_meeting else suggestion_generic)))"
    using suggestion_hd(3,4) by (auto simp: hd_in_set)
  then show False using suggestion_hd(1,2) by (auto split: if_splits)
qed

lemma stub_unavailable:
  "stub messages ''(provider unavailable)'' =
     (if re_search MEETING_RE (last_user messages)
      then suggestion_meeting else suggestion_generic) @ '' (provider unavailable)''"
  by (subst stub_eq) (simp_all add: is_space_def cp_def)

lemma stub_error:
  "stub messages (''(provider error: '' @ exc @ '')'') =
     (if re_search MEETING_RE (last_user messages)
      then suggestion_meeting else suggestion_generic) @ '' (provider error: '' @ exc @ '')''"
  by (subst stub_eq) (simp_all add: is_space_def cp_def)

lemma strip_generate: "strip (generate remote p messages) = generate remote p messages"
  by (simp add: generate_def stub_def Let_def strip_idem
           split: Response.splits list.splits option.splits)

lemma generate_disabled:
  "\<not> enabled p \<Longrightarrow> generate remote p messages = stub messages ''(provider unavailable)''"
  by (simp add: generate_def)

section \<open>One turn\<close>

lemma strip_dots: "strip ''...'' = ''...''"
  by (rule strip_id) (simp_all add: is_space_def cp_def)

lemma turns_take_turn:
  "turns (take_turn remote c agent p) =
     turns c @ [\<lparr>speaker = name agent,
                 turn_text = (if generate remote p (build_messages_for c agent) = [] then ''...''
                              else generate remote p (build_messages_for c agent))\<rparr>]"
  by (simp add: take_turn_def append_turn_def Let_def strip_dots strip_generate)

lemma take_turn_keeps [simp]:
  "agents (take_turn remote c agent p) = agents c"
  "run (take_turn remote c agent p) = run c"
  "providers (take_turn remote c agent p) = providers c"
  by (simp_all add: take_turn_def append_turn_def Let_def)

lemma take_turn_text_not_Nil:
  "t \<in> set (turns (take_turn remote c agent p)) \<Longrightarrow> t \<notin> set (turns c) \<Longrightarrow>
     strip (turn_text t) \<noteq> [] \<and> speaker t = name agent"
  by (auto simp: turns_take_turn strip_dots strip_generate)

section \<open>The loop\<close>

lemma run_loop_rule:
  assumes "P c i k"
    and "\<And>c i k. P c i k \<Longrightarrow> int k < max_messages (run c)
                \<Longrightarrow> providers c (name (agent_at (agents c) i)) \<noteq> None"
    and "\<And>c i k p. P c i k \<Longrightarrow> int k < max_messages (run c)
                \<Longrightarrow> providers c (name (agent_at (agents c) i)) = Some p
                \<Longrightarrow> \<not> meeting_agreed (turns (take_turn (R k) c (agent_at (agents c) i) p))
                \<Longrightarrow> P (take_turn (R k) c (agent_at (agents c) i) p) (1 - i) (Suc k)"
    and "\<And>c i k p. P c i k \<Longrightarrow> int k < max_messages (run c)
                \<Longrightarrow> providers c (name (agent_at (agents c) i)) = Some p
                \<Longrightarrow> meeting_agreed (turns (take_turn (R k) c (agent_at (agents c) i) p))
                \<Longrightarrow> Q (take_turn (R k) c (agent_at (agents c) i) p)"
    and "\<And>c i k. P c i k \<Longrightarrow> \<not> int k < max_messages (run c) \<Longrightarrow> Q c"
  shows "\<exists>c'. run_loop R c i k = Inr c' \<and> Q c'"
  using assms
proof (induction R c i k rule: run_loop.induct)
  case (1 R c i k)
  note inv = "1.prems"(1) and dom = "1.prems"(2) and step = "1.prems"(3)
    and brk = "1.prems"(4) and fin = "1.prems"(5)
  show ?case
  proof (cases "int k < max_messages (run c)")
    case False
    have "run_loop R c i k = Inr c"
      by (subst run_loop.simps) (simp add: False)
    then show ?thesis using fin [OF inv False] by simp
  next
    case True
    let ?agent = "agent_at (agents c) i"
    obtain p where p: "providers c (name ?agent) = Some p"
      using dom [OF inv True] by blast
    let ?c' = "take_turn (R k) c ?agent p"
    show ?thesis
    proof (cases "meeting_agreed (turns ?c')")
      case agreed: True
      have "run_loop R c i k = Inr ?c'"
        by (subst run_loop.simps) (simp add: True p Let_def agreed)
      then show ?thesis
        using brk [OF inv True p agreed] by simp
    next
      case False
      have "P ?c' (1 - i) (Suc k)"
        by (rule step [OF inv True p False])
      then have "\<exists>c'. run_loop R ?c' (1 - i) (Suc k) = Inr c' \<and> Q c'"
        by (rule "1.IH" [OF True refl p refl False _ dom step brk fin])
      moreover have "run_loop R c i k = run_loop R ?c' (1 - i) (Suc k)"
        by (subst run_loop.simps) (simp add: True p Let_def False)
      ultimately show ?thesis by simp
    qed
  qed
qed

section \<open>Claims on the provider adapter and on the transcript writer\<close>

text \<open>
  C8. Whatever the message history, when the adapter is enabled and its remote call raises
  an exception, \<open>generate\<close> returns a string: the fallback suggestion followed by the note
  \<^verbatim>\<open>(provider error: ...)\<close> with the text of the exception. The reply contains the
  substring \<^verbatim>\<open>(provider error: \<close>. \<open>generate\<close> is a total function into strings: no
  outcome of the remote call makes it raise.
\<close>

theorem generate_absorbs_exception:
  assumes "enabled p" and "client p \<noteq> None" and "remote (cfg p) messages = Raises exc"
  shows "generate remote p messages =
           (if re_search MEETING_RE (last_user messages)
            then suggestion_meeting else suggestion_generic)
           @ '' (provider error: '' @ exc @ '')''
         \<and> contains (generate remote p messages) ''(provider error: ''
         \<and> contains (generate remote p messages) exc"
proof -
  let ?s = "if re_search MEETING_RE (last_user messages)
            then suggestion_meeting else suggestion_generic"
  have "generate remote p messages = stub messages (''(provider error: '' @ exc @ '')'')"
    using assms by (simp add: generate_def)
  also have "\<dots> = ?s @ '' (provider error: '' @ exc @ '')''"
    by (rule stub_error)
  finally have g: "generate remote p messages = ?s @ '' (provider error: '' @ exc @ '')''" .
  have "contains ((?s @ '' '') @ ''(provider error: '' @ (exc @ '')'')) ''(provider error: ''"
    by (rule contains_mid)
  then have c1: "contains (generate remote p messages) ''(provider error: ''"
    by (simp add: g)
  have "contains ((?s @ '' (provider error: '') @ exc @ '')'') exc"
    by (rule contains_mid)
  then have c2: "contains (generate remote p messages) exc"
    by (simp add: g)
  show ?thesis using g c1 c2 by blast
qed

section \<open>Matching does not see letter case\<close>

lemma class_lower:
  "is_decimal (lower n) = is_decimal n"
  "is_space (lower n) = is_space n"
  "is_word (lower n) = is_word n"
  by (auto simp: is_decimal_def is_space_def is_word_def lower_def)

lemma ceq_class:
  assumes "ceq n m"
  shows "is_decimal n = is_decimal m" "is_space n = is_space m" "is_word n = is_word m"
proof -
  have e: "lower n = lower m" using assms by (simp add: ceq_def)
  show "is_decimal n = is_decimal m" using class_lower(1) [of n] class_lower(1) [of m] e by simp
  show "is_space n = is_space m" using class_lower(2) [of n] class_lower(2) [of m] e by simp
  show "is_word n = is_word m" using class_lower(3) [of n] class_lower(3) [of m] e by simp
qed

lemma ceq_atom_ok: "ceq n m \<Longrightarrow> atom_ok a n = atom_ok a m"
  by (cases a) (simp_all add: ceq_class, simp_all add: ceq_def)

lemma peq_boundary: "peq st st' \<Longrightarrow> at_boundary st = at_boundary st'"
proof -
  assume h: "peq st st'"
  obtain p s where st: "st = (p, s)" by (cases st)
  obtain p' s' where st': "st' = (p', s')" by (cases st')
  have a: "(case p of None \<Rightarrow> False | Some n \<Rightarrow> is_word n)
           = (case p' of None \<Rightarrow> False | Some n \<Rightarrow> is_word n)"
    using h by (cases p; cases p') (simp_all add: peq_def st st' ceq_class(3))
  have b: "(case s of [] \<Rightarrow> False | n # _ \<Rightarrow> is_word n)
           = (case s' of [] \<Rightarrow> False | n # _ \<Rightarrow> is_word n)"
    using h by (cases s; cases s') (simp_all add: peq_def st st' ceq_class(3))
  show ?thesis by (simp add: st st' a b)
qed

lemma peq_spans: "peq (p, s) (p', s') \<Longrightarrow> list_all2 peq (spans a (p, s)) (spans a (p', s'))"
proof (induction s arbitrary: p p' s')
  case Nil
  then show ?case by (simp add: peq_def)
next
  case (Cons n ns)
  then obtain m ms where s': "s' = m # ms" and nm: "ceq n m" and rest: "list_all2 ceq ns ms"
    by (cases s') (auto simp: peq_def)
  have "peq (Some n, ns) (Some m, ms)" using nm rest by (simp add: peq_def)
  then have "list_all2 peq (spans a (Some n, ns)) (spans a (Some m, ms))"
    by (rule Cons.IH)
  then show ?case
    using Cons.prems ceq_atom_ok [OF nm, of a] by (simp add: s')
qed

lemma peq_rmatch: "peq st st' \<Longrightarrow> list_all2 peq (rmatch r st) (rmatch r st')"
proof (induction r arbitrary: st st')
  case (Atom a)
  obtain p s where st: "st = (p, s)" by (cases st)
  obtain p' s' where st': "st' = (p', s')" by (cases st')
  show ?case
  proof (cases s)
    case Nil
    then show ?thesis using Atom by (simp add: st st' peq_def)
  next
    case (Cons n ns)
    then obtain m ms where s': "s' = m # ms" and nm: "ceq n m" and rest: "list_all2 ceq ns ms"
      using Atom by (cases s') (auto simp: peq_def st st')
    show ?thesis
      using ceq_atom_ok [OF nm, of a] nm rest by (simp add: st st' Cons s' peq_def)
  qed
next
  case Eps
  then show ?case by simp
next
  case WordB
  then show ?case using peq_boundary [OF WordB] by simp
next
  case (Seq r1 r2)
  have "list_all2 peq (rmatch r1 st) (rmatch r1 st')"
    by (rule Seq.IH(1) [OF Seq.prems])
  then have "list_all2 (list_all2 peq) (map (rmatch r2) (rmatch r1 st)) (map (rmatch r2) (rmatch r1 st'))"
    by (simp add: list_all2_map1 list_all2_map2 list_all2_mono [OF _ Seq.IH(2)])
  then show ?case
    using concat_transfer [of peq] by (simp add: rel_fun_def)
next
  case (Alt r1 r2)
  then show ?case by (simp add: list_all2_appendI)
next
  case (Opt r)
  then show ?case by (simp add: list_all2_appendI)
next
  case (Star a)
  obtain p s where st: "st = (p, s)" by (cases st)
  obtain p' s' where st': "st' = (p', s')" by (cases st')
  show ?case using peq_spans [of p s p' s' a] Star by (simp add: st st')
next
  case (Rep lo hi a)
  obtain p s where st: "st = (p, s)" by (cases st)
  obtain p' s' where st': "st' = (p', s')" by (cases st')
  have "list_all2 peq (spans a st) (spans a st')"
    using peq_spans [of p s p' s' a] Rep by (simp add: st st')
  then show ?case by (simp add: list_all2_takeI list_all2_dropI)
qed

lemma peq_search: "peq (p, s) (p', s') \<Longrightarrow> search_from r (p, s) = search_from r (p', s')"
proof (induction s arbitrary: p p' s')
  case Nil
  then have s': "s' = []" by (simp add: peq_def)
  have "list_all2 peq (rmatch r (p, [])) (rmatch r (p', []))"
    using Nil by (intro peq_rmatch) (simp add: s')
  then have "(rmatch r (p, []) = []) = (rmatch r (p', []) = [])"
    by (auto dest: list_all2_lengthD)
  then show ?case by (simp add: s')
next
  case (Cons n ns)
  then obtain m ms where s': "s' = m # ms" and nm: "ceq n m" and rest: "list_all2 ceq ns ms"
    by (cases s') (auto simp: peq_def)
  have "list_all2 peq (rmatch r (p, n # ns)) (rmatch r (p', m # ms))"
    using Cons.prems by (intro peq_rmatch) (simp add: s')
  then have a: "(rmatch r (p, n # ns) = []) = (rmatch r (p', m # ms) = [])"
    by (auto dest: list_all2_lengthD)
  have "peq (Some n, ns) (Some m, ms)" using nm rest by (simp add: peq_def)
  then have b: "search_from r (Some n, ns) = search_from r (Some m, ms)"
    by (rule Cons.IH)
  show ?case by (simp add: s' a b)
qed

lemma re_search_case:
  assumes "map (\<lambda>c. lower (cp c)) s = map (\<lambda>c. lower (cp c)) t"
  shows "re_search r s = re_search r t"
proof -
  have "length s = length t" using assms by (rule map_eq_imp_length_eq)
  moreover have "\<forall>i<length s. ceq (cp (s ! i)) (cp (t ! i))"
  proof (intro allI impI)
    fix i assume i: "i < length s"
    have "map (\<lambda>c. lower (cp c)) s ! i = map (\<lambda>c. lower (cp c)) t ! i" using assms by simp
    then show "ceq (cp (s ! i)) (cp (t ! i))"
      using i \<open>length s = length t\<close> by (simp add: ceq_def)
  qed
  ultimately have "list_all2 ceq (map cp s) (map cp t)"
    by (simp add: list_all2_conv_all_nth)
  then have "peq (None, map cp s) (None, map cp t)" by (simp add: peq_def)
  then show ?thesis unfolding re_search_def by (rule peq_search)
qed

section \<open>The termination detector: claim C1\<close>

text \<open>
  C1. For every list of turns, \<open>meeting_agreed\<close> is false when the list has fewer than two
  turns; otherwise it is true exactly when the text of the second-to-last turn matches
  \<open>MEETING_RE\<close> and the text of the last turn matches \<open>ACCEPTANCE_RE\<close> or \<open>MEETING_RE\<close>.
  Both searches ignore letter case: two texts that are equal after lower-casing get the
  same verdict.
\<close>

theorem meeting_agreed_spec:
  "(length ts < 2 \<longrightarrow> \<not> meeting_agreed ts)
   \<and> (2 \<le> length ts \<longrightarrow>
        meeting_agreed ts =
          (re_search MEETING_RE (turn_text (ts ! (length ts - 2)))
           \<and> (re_search ACCEPTANCE_RE (turn_text (last ts))
                \<or> re_search MEETING_RE (turn_text (last ts)))))
   \<and> (\<forall>s t. map (\<lambda>c. lower (cp c)) s = map (\<lambda>c. lower (cp c)) t \<longrightarrow>
          re_search MEETING_RE s = re_search MEETING_RE t
          \<and> re_search ACCEPTANCE_RE s = re_search ACCEPTANCE_RE t)"
proof (intro conjI allI impI)
  assume "length ts < 2"
  then show "\<not> meeting_agreed ts" by (simp add: meeting_agreed_def)
next
  assume h: "2 \<le> length ts"
  then have "ts \<noteq> []" by auto
  then have "ts ! (length ts - 1) = last ts" by (simp add: last_conv_nth)
  then show "meeting_agreed ts =
          (re_search MEETING_RE (turn_text (ts ! (length ts - 2)))
           \<and> (re_search ACCEPTANCE_RE (turn_text (last ts))
                \<or> re_search MEETING_RE (turn_text (last ts))))"
    using h by (simp add: meeting_agreed_def Let_def)
next
  fix s t :: string
  assume "map (\<lambda>c. lower (cp c)) s = map (\<lambda>c. lower (cp c)) t"
  then show "re_search MEETING_RE s = re_search MEETING_RE t"
    by (rule re_search_case)
next
  fix s t :: string
  assume "map (\<lambda>c. lower (cp c)) s = map (\<lambda>c. lower (cp c)) t"
  then show "re_search ACCEPTANCE_RE s = re_search ACCEPTANCE_RE t"
    by (rule re_search_case)
qed

lemma scenario_A_searches:
  "re_search MEETING_RE (''Vamos marcar caf'' @ [CHR 0xE9] @ '' quinta '' @ [CHR 0xE0] @ ''s 19:00?'')"
  "re_search ACCEPTANCE_RE ''Perfeito, combinado!''"
  by (simp_all add: re_eval)

lemma scenario_B_searches:
  "\<not> re_search MEETING_RE (''Como est'' @ [CHR 0xE1] @ ''s?'')"
  by (simp add: re_eval)

theorem meeting_agreed_spec_witness:
  "meeting_agreed scenario_A \<and> \<not> meeting_agreed scenario_B
   \<and> \<not> meeting_agreed (take 1 scenario_A)
   \<and> re_search ACCEPTANCE_RE ''PERFEITO, COMBINADO!''"
proof -
  have a: "meeting_agreed scenario_A"
    using meeting_agreed_spec [of scenario_A] scenario_A_searches
    by (simp add: scenario_A_def)
  have b: "\<not> meeting_agreed scenario_B"
    using meeting_agreed_spec [of scenario_B] scenario_B_searches
    by (simp add: scenario_B_def)
  have c: "\<not> meeting_agreed (take 1 scenario_A)"
    using meeting_agreed_spec [of "take 1 scenario_A"] by (simp add: scenario_A_def)
  have "map (\<lambda>c. lower (cp c)) ''PERFEITO, COMBINADO!'' = map (\<lambda>c. lower (cp c)) ''Perfeito, combinado!''"
    by (simp add: lower_def cp_def)
  then have "re_search ACCEPTANCE_RE ''PERFEITO, COMBINADO!'' = re_search ACCEPTANCE_RE ''Perfeito, combinado!''"
    using meeting_agreed_spec [of scenario_A] by blast
  then have d: "re_search ACCEPTANCE_RE ''PERFEITO, COMBINADO!''"
    using scenario_A_searches(2) by simp
  show ?thesis using a b c d by blast
qed

lemma ex_messages_last_user:
  "last_user ex_messages = ''Como est'' @ [CHR 0xE1] @ ''s?''"
  by (simp add: last_user_def ex_messages_def)

theorem generate_absorbs_exception_witness:
  "enabled (Provider_init ex_env_key ex_agent_a)
   \<and> client (Provider_init ex_env_key ex_agent_a) \<noteq> None
   \<and> generate ex_remote_raises (Provider_init ex_env_key ex_agent_a) ex_messages
       = ''Adoro a energia. Que tal marcarmos algo leve para nos conhecermos? (provider error: timeout)''
   \<and> contains (generate ex_remote_raises (Provider_init ex_env_key ex_agent_a) ex_messages)
         ''(provider error: ''"
proof -
  let ?p = "Provider_init ex_env_key ex_agent_a"
  have e: "enabled ?p" and c: "client ?p \<noteq> None"
    by (simp_all add: Provider_init_def ex_env_key_def ex_agent_a_def Let_def)
  have r: "ex_remote_raises (cfg ?p) ex_messages = Raises ''timeout''"
    by (simp add: ex_remote_raises_def)
  have n: "\<not> re_search MEETING_RE (last_user ex_messages)"
    using scenario_B_searches by (simp add: ex_messages_last_user)
  show ?thesis
    using generate_absorbs_exception
            [where p = "?p" and remote = ex_remote_raises and messages = ex_messages
               and exc = "''timeout''", OF e c r] e c n
    by (simp add: suggestion_generic_def)
qed

section \<open>The transcript writer: claim C9\<close>

lemma document_frame:
  "document ts now title subtitle =
     (''# '' @ title @ [CHR 0x0A, CHR 0x0A]
      @ (case subtitle of
           None \<Rightarrow> []
         | Some s \<Rightarrow> if s = [] then [] else ''_'' @ s @ ''_'' @ [CHR 0x0A, CHR 0x0A])
      @ ''> Transcript gerado em '')
     @ now
     @ ([CHR 0x0A, CHR 0x0A] @ ''---'' @ [CHR 0x0A, CHR 0x0A] @ concat (map render_turn ts))"
  by (simp add: document_def)

text \<open>
  C9. When the destination can be opened, an export returns the chat unchanged and leaves
  at the destination exactly the document: a prefix fixed by title and subtitle, the
  timestamp, and a suffix fixed by the turns. A second export of the same turns, title and
  subtitle to the same destination gives the same file system as a single export with the
  second timestamp would: the previous content is replaced, nothing is appended, and the
  two documents differ in the timestamp only; with the same timestamp the second export
  changes nothing.
\<close>

theorem export_markdown_overwrites:
  assumes "can_open fs path"
  shows "\<exists>pre post fs1.
           export_markdown c fs now1 path title subtitle = Inr (c, fs1)
           \<and> files fs1 path = Some (pre @ now1 @ post)
           \<and> export_markdown c fs1 now2 path title subtitle
               = export_markdown c fs now2 path title subtitle
           \<and> export_markdown c fs1 now2 path title subtitle
               = Inr (c, fs1\<lparr>files := (files fs1)(path \<mapsto> pre @ now2 @ post)\<rparr>)
           \<and> export_markdown c fs1 now1 path title subtitle = Inr (c, fs1)
           \<and> pre = ''# '' @ title @ [CHR 0x0A, CHR 0x0A]
                    @ (case subtitle of
                         None \<Rightarrow> []
                       | Some s \<Rightarrow> if s = [] then [] else ''_'' @ s @ ''_'' @ [CHR 0x0A, CHR 0x0A])
                    @ ''> Transcript gerado em ''
           \<and> post = [CHR 0x0A, CHR 0x0A] @ ''---'' @ [CHR 0x0A, CHR 0x0A]
                     @ concat (map render_turn (turns c))"
proof -
  let ?pre = "''# '' @ title @ [CHR 0x0A, CHR 0x0A]
                    @ (case subtitle of
                         None \<Rightarrow> []
                       | Some s \<Rightarrow> if s = [] then [] else ''_'' @ s @ ''_'' @ [CHR 0x0A, CHR 0x0A])
                    @ ''> Transcript gerado em ''"
  let ?post = "[CHR 0x0A, CHR 0x0A] @ ''---'' @ [CHR 0x0A, CHR 0x0A]
                     @ concat (map render_turn (turns c))"
  let ?fs1 = "fs\<lparr>files := (files fs)(path \<mapsto> ?pre @ now1 @ ?post)\<rparr>"
  have d: "\<And>now. document (turns c) now title subtitle = ?pre @ now @ ?post"
    by (rule document_frame)
  have 1: "export_markdown c fs now1 path title subtitle = Inr (c, ?fs1)"
    using assms by (simp only: export_markdown_def d if_True)
  have 2: "files ?fs1 path = Some (?pre @ now1 @ ?post)" by simp
  have o: "can_open ?fs1 path" using assms by simp
  have 3: "export_markdown c ?fs1 now2 path title subtitle
             = Inr (c, ?fs1\<lparr>files := (files ?fs1)(path \<mapsto> ?pre @ now2 @ ?post)\<rparr>)"
    using o by (simp only: export_markdown_def d if_True)
  have 4: "export_markdown c fs now2 path title subtitle
             = Inr (c, fs\<lparr>files := (files fs)(path \<mapsto> ?pre @ now2 @ ?post)\<rparr>)"
    using assms by (simp only: export_markdown_def d if_True)
  have 5: "export_markdown c ?fs1 now2 path title subtitle
             = export_markdown c fs now2 path title subtitle"
    by (simp only: 3 4) simp
  have 6: "export_markdown c ?fs1 now1 path title subtitle = Inr (c, ?fs1)"
    using o by (simp only: export_markdown_def d if_True) simp
  show ?thesis
    using 1 2 3 5 6 by blast
qed

theorem export_markdown_overwrites_witness:
  "can_open ex_fs ''tinder_conversation.md''
   \<and> export_markdown ex_chat_B ex_fs ''2025-01-31 18:05'' ''tinder_conversation.md''
        ''Um Dialogo'' (Some ''pt-PT'')
      = Inr (ex_chat_B,
             ex_fs\<lparr>files := (files ex_fs)(''tinder_conversation.md'' \<mapsto>
               ''# Um Dialogo'' @ [CHR 0x0A, CHR 0x0A] @ ''_pt-PT_'' @ [CHR 0x0A, CHR 0x0A]
               @ ''> Transcript gerado em 2025-01-31 18:05'' @ [CHR 0x0A, CHR 0x0A]
               @ ''---'' @ [CHR 0x0A, CHR 0x0A]
               @ ''**Homem (40)**: Como est'' @ [CHR 0xE1] @ ''s?'' @ [CHR 0x0A, CHR 0x0A]
               @ ''**Mulher (35)**: Bem, e tu?'' @ [CHR 0x0A, CHR 0x0A])\<rparr>)"
proof -
  have o: "can_open ex_fs ''tinder_conversation.md''" by (simp add: ex_fs_def)
  have s1: "strip (''Como est'' @ [CHR 0xE1] @ ''s?'') = ''Como est'' @ [CHR 0xE1] @ ''s?''"
    by (rule strip_id) (simp_all add: is_space_def cp_def)
  have s2: "strip ''Bem, e tu?'' = ''Bem, e tu?''"
    by (rule strip_id) (simp_all add: is_space_def cp_def)
  have t: "turns ex_chat_B = scenario_B" by (simp add: ex_chat_B_def)
  obtain pre post fs1 where
    e: "export_markdown ex_chat_B ex_fs ''2025-01-31 18:05'' ''tinder_conversation.md''
          ''Um Dialogo'' (Some ''pt-PT'') = Inr (ex_chat_B, fs1)"
    using export_markdown_overwrites [OF o] by blast
  have "fs1 = ex_fs\<lparr>files := (files ex_fs)(''tinder_conversation.md'' \<mapsto>
               document scenario_B ''2025-01-31 18:05'' ''Um Dialogo'' (Some ''pt-PT''))\<rparr>"
    using e o by (simp add: export_markdown_def t)
  moreover have "document scenario_B ''2025-01-31 18:05'' ''Um Dialogo'' (Some ''pt-PT'')
       = ''# Um Dialogo'' @ [CHR 0x0A, CHR 0x0A] @ ''_pt-PT_'' @ [CHR 0x0A, CHR 0x0A]
               @ ''> Transcript gerado em 2025-01-31 18:05'' @ [CHR 0x0A, CHR 0x0A]
               @ ''---'' @ [CHR 0x0A, CHR 0x0A]
               @ ''**Homem (40)**: Como est'' @ [CHR 0xE1] @ ''s?'' @ [CHR 0x0A, CHR 0x0A]
               @ ''**Mulher (35)**: Bem, e tu?'' @ [CHR 0x0A, CHR 0x0A]"
    using s1 s2 by (simp add: document_def scenario_B_def render_turn_def)
  ultimately show ?thesis using e o by simp
qed

section \<open>Runs from a fresh chat\<close>

lemma init_fresh: "TwoAgentChat_init env a b r = Inr (fresh_chat env a b r)"
  by (simp add: TwoAgentChat_init_def fresh_chat_def)

lemma construct_and_run_fresh:
  "construct_and_run env a b r R = run_loop R (fresh_chat env a b r) 0 0"
  by (simp add: construct_and_run_def init_fresh run_until_meeting_or_max_def)

lemma fresh_chat_fields [simp]:
  "agents (fresh_chat env a b r) = (a, b)"
  "run (fresh_chat env a b r) = r"
  "turns (fresh_chat env a b r) = []"
  "providers (fresh_chat env a b r) (name b) = Some (Provider_init env b)"
  "providers (fresh_chat env a b r) (name a)
     = Some (if name a = name b then Provider_init env b else Provider_init env a)"
  by (simp_all add: fresh_chat_def)

lemma agent_at_cases: "agent_at (a, b) i = a \<or> agent_at (a, b) i = b"
  by (simp add: agent_at_def)

lemma flip_index: "i = k mod 2 \<Longrightarrow> 1 - i = Suc k mod 2"
  by presburger

lemma run_general:
  "\<exists>c'. construct_and_run env a b r R = Inr c'
        \<and> agents c' = (a, b) \<and> run c' = r
        \<and> int (length (turns c')) \<le> max 0 (max_messages r)
        \<and> (0 < max_messages r \<longrightarrow> turns c' \<noteq> [])
        \<and> (int (length (turns c')) < max_messages r \<longrightarrow> meeting_agreed (turns c'))
        \<and> (\<forall>j<length (turns c').
              speaker (turns c' ! j) = name (agent_at (a, b) (j mod 2))
              \<and> strip (turn_text (turns c' ! j)) \<noteq> [])"
proof -
  let ?good = "\<lambda>c::TwoAgentChat. \<forall>j<length (turns c).
              speaker (turns c ! j) = name (agent_at (a, b) (j mod 2))
              \<and> strip (turn_text (turns c ! j)) \<noteq> []"
  let ?base = "\<lambda>c::TwoAgentChat. agents c = (a, b) \<and> run c = r
              \<and> providers c = providers (fresh_chat env a b r)"
  let ?P = "\<lambda>(c::TwoAgentChat) (i::nat) (k::nat). ?base c \<and> length (turns c) = k \<and> i = k mod 2
              \<and> int k \<le> max 0 (max_messages r) \<and> ?good c"
  let ?Q = "\<lambda>c::TwoAgentChat. agents c = (a, b) \<and> run c = r
        \<and> int (length (turns c)) \<le> max 0 (max_messages r)
        \<and> (0 < max_messages r \<longrightarrow> turns c \<noteq> [])
        \<and> (int (length (turns c)) < max_messages r \<longrightarrow> meeting_agreed (turns c))
        \<and> ?good c"
  have appended: "\<And>c i k p rm. ?P c i k \<Longrightarrow> int k < max_messages (run c)
      \<Longrightarrow> ?P (take_turn rm c (agent_at (agents c) i) p) (1 - i) (Suc k)"
  proof -
    fix c :: TwoAgentChat and i k :: nat and p :: Provider and rm :: Remote
    assume P: "?P c i k" and lt: "int k < max_messages (run c)"
    let ?c' = "take_turn rm c (agent_at (agents c) i) p"
    obtain body where t: "turns ?c' = turns c @ [\<lparr>speaker = name (agent_at (agents c) i), turn_text = body\<rparr>]"
      and body: "strip body \<noteq> []"
      using turns_take_turn [of rm c "agent_at (agents c) i" p] strip_dots strip_generate [of rm p]
      by (cases "generate rm p (build_messages_for c (agent_at (agents c) i)) = []")
         (auto simp: strip_generate)
    have "?base ?c'" using P by simp
    moreover have "length (turns ?c') = Suc k" using P t by simp
    moreover have "1 - i = Suc k mod 2" using P by (intro flip_index) simp
    moreover have "int (Suc k) \<le> max 0 (max_messages r)" using P lt by simp
    moreover have "?good ?c'"
    proof (intro allI impI)
      fix j assume "j < length (turns ?c')"
      then have "j < length (turns c) \<or> j = length (turns c)" using t by auto
      then show "speaker (turns ?c' ! j) = name (agent_at (a, b) (j mod 2))
              \<and> strip (turn_text (turns ?c' ! j)) \<noteq> []"
      proof
        assume "j < length (turns c)"
        then show ?thesis using P t by (simp add: nth_append)
      next
        assume "j = length (turns c)"
        then show ?thesis using P body t by (simp add: nth_append)
      qed
    qed
    ultimately show "?P ?c' (1 - i) (Suc k)" by blast
  qed
  have "?P (fresh_chat env a b r) 0 0" by simp
  then have "\<exists>c'. run_loop R (fresh_chat env a b r) 0 0 = Inr c' \<and> ?Q c'"
  proof (rule run_loop_rule [where P = ?P and Q = ?Q])
    fix c :: TwoAgentChat and i k :: nat
    assume P: "?P c i k"
    show "providers c (name (agent_at (agents c) i)) \<noteq> None"
      using P agent_at_cases [of a b i] by auto
  next
    fix c :: TwoAgentChat and i k :: nat and p :: Provider
    assume "?P c i k" "int k < max_messages (run c)"
    then show "?P (take_turn (R k) c (agent_at (agents c) i) p) (1 - i) (Suc k)"
      by (rule appended)
  next
    fix c :: TwoAgentChat and i k :: nat and p :: Provider
    assume P: "?P c i k" and lt: "int k < max_messages (run c)"
      and m: "meeting_agreed (turns (take_turn (R k) c (agent_at (agents c) i) p))"
    have "?P (take_turn (R k) c (agent_at (agents c) i) p) (1 - i) (Suc k)"
      using P lt by (rule appended)
    then show "?Q (take_turn (R k) c (agent_at (agents c) i) p)"
      using m by auto
  next
    fix c :: TwoAgentChat and i k :: nat
    assume P: "?P c i k" and ge: "\<not> int k < max_messages (run c)"
    then show "?Q c" by auto
  qed
  then show ?thesis by (simp only: construct_and_run_fresh)
qed

section \<open>What the fallback sees, and what it says\<close>

lemma last_user_cases:
  "last_user ms = [] \<or> (\<exists>m\<in>set ms. role m = ''user'' \<and> last_user ms = content m)"
proof (cases "filter (\<lambda>m. role m = ''user'') (rev ms)")
  case Nil
  then show ?thesis by (simp add: last_user_def)
next
  case (Cons m rest)
  then have "m \<in> set (filter (\<lambda>m. role m = ''user'') (rev ms))" by simp
  then have "m \<in> set ms" "role m = ''user''" by simp_all
  moreover have "last_user ms = content m" by (simp add: last_user_def Cons)
  ultimately show ?thesis by blast
qed

lemma last_user_kickoff:
  "turns c = [] \<Longrightarrow> last_user (build_messages_for c spk) = kickoff_of spk"
  by (simp add: build_messages_for_def last_user_def Let_def)

lemma last_user_replay:
  assumes "turns c \<noteq> []"
  shows "last_user (build_messages_for c spk) = []
         \<or> last_user (build_messages_for c spk) \<in> turn_text ` set (turns c)"
proof -
  let ?ms = "build_messages_for c spk"
  let ?f = "\<lambda>t. \<lparr>role = (if speaker t = name spk then ''assistant'' else ''user''),
                  content = turn_text t\<rparr>"
  have ms: "?ms = \<lparr>role = ''system'', content = system_preamble spk\<rparr> # map ?f (turns c)"
    using assms by (simp add: build_messages_for_def Let_def)
  show ?thesis
  proof (cases "last_user ?ms = []")
    case True
    then show ?thesis by simp
  next
    case False
    then obtain m where m: "m \<in> set ?ms" "role m = ''user''" "last_user ?ms = content m"
      using last_user_cases [of ?ms] by blast
    have "m \<noteq> \<lparr>role = ''system'', content = system_preamble spk\<rparr>"
      using m(2) by auto
    then have "m \<in> set (map ?f (turns c))" using m(1) by (simp only: ms set_simps) blast
    then obtain t where "t \<in> set (turns c)" "m = ?f t" by auto
    then have "content m \<in> turn_text ` set (turns c)" by simp
    then show ?thesis using m(3) by simp
  qed
qed

lemma generic_reply_searches:
  "\<not> re_search MEETING_RE generic_reply"
  "\<not> re_search ACCEPTANCE_RE generic_reply"
  by (simp_all add: generic_reply_def suggestion_generic_def re_eval)

lemma empty_searches:
  "\<not> re_search MEETING_RE []"
  "\<not> re_search ACCEPTANCE_RE []"
  by (simp_all add: re_eval)

lemma meeting_reply_search: "re_search MEETING_RE meeting_reply"
  by (simp add: meeting_reply_def suggestion_meeting_def re_eval)

lemma replies_not_Nil: "generic_reply \<noteq> []" "meeting_reply \<noteq> []"
  by (simp_all add: generic_reply_def meeting_reply_def suggestion_generic_def)

lemma generate_fallback:
  assumes "\<not> enabled p"
  shows "generate remote p ms = (if re_search MEETING_RE (last_user ms)
                                  then meeting_reply else generic_reply)"
proof -
  have "generate remote p ms = stub ms ''(provider unavailable)''"
    using assms by (rule generate_disabled)
  also have "\<dots> = (if re_search MEETING_RE (last_user ms)
                  then suggestion_meeting else suggestion_generic) @ '' (provider unavailable)''"
    by (rule stub_unavailable)
  also have "\<dots> = (if re_search MEETING_RE (last_user ms)
                  then meeting_reply else generic_reply)"
    by (simp add: generic_reply_def meeting_reply_def)
  finally show ?thesis .
qed

lemma take_turn_fallback:
  assumes "\<not> enabled p"
  shows "turns (take_turn remote c agent p) =
           turns c @ [\<lparr>speaker = name agent,
                       turn_text = (if re_search MEETING_RE (last_user (build_messages_for c agent))
                                    then meeting_reply else generic_reply)\<rparr>]"
proof -
  let ?g = "generate remote p (build_messages_for c agent)"
  have g: "?g = (if re_search MEETING_RE (last_user (build_messages_for c agent))
                 then meeting_reply else generic_reply)"
    using assms by (rule generate_fallback)
  then have "?g \<noteq> []" using replies_not_Nil by (simp split: if_splits)
  then have "turns (take_turn remote c agent p) =
               turns c @ [\<lparr>speaker = name agent, turn_text = ?g\<rparr>]"
    by (simp add: turns_take_turn)
  then show ?thesis by (simp only: g)
qed

section \<open>Unfolding the loop\<close>

lemma run_loop_stop:
  "\<not> int k < max_messages (run c) \<Longrightarrow> run_loop R c i k = Inr c"
  by (subst run_loop.simps) simp

lemma run_loop_step:
  assumes "int k < max_messages (run c)"
    and "providers c (name (agent_at (agents c) i)) = Some p"
  shows "run_loop R c i k =
           (if meeting_agreed (turns (take_turn (R k) c (agent_at (agents c) i) p))
            then Inr (take_turn (R k) c (agent_at (agents c) i) p)
            else run_loop R (take_turn (R k) c (agent_at (agents c) i) p) (1 - i) (Suc k))"
  by (subst run_loop.simps) (simp add: assms Let_def)

lemma meeting_agreed_short: "length ts < 2 \<Longrightarrow> \<not> meeting_agreed ts"
  by (simp add: meeting_agreed_def)

lemma meeting_agreed_no_intent:
  assumes "\<forall>t\<in>set ts. \<not> re_search MEETING_RE (turn_text t)"
  shows "\<not> meeting_agreed ts"
proof (cases "length ts < 2")
  case True
  then show ?thesis by (rule meeting_agreed_short)
next
  case False
  then have "ts ! (length ts - 2) \<in> set ts" by simp
  then have "\<not> re_search MEETING_RE (turn_text (ts ! (length ts - 2)))"
    using assms by blast
  then show ?thesis by (simp add: meeting_agreed_def Let_def)
qed

lemma fallback_turns_Suc:
  "fallback_turns ags (Suc n) =
     fallback_turns ags n @ [\<lparr>speaker = name (agent_at ags (n mod 2)), turn_text = generic_reply\<rparr>]"
  by (simp add: fallback_turns_def)

lemma fallback_turns_text: "t \<in> set (fallback_turns ags n) \<Longrightarrow> turn_text t = generic_reply"
  by (auto simp: fallback_turns_def)

lemma fallback_turns_length [simp]: "length (fallback_turns ags n) = n"
  by (simp add: fallback_turns_def)



lemma no_meeting_fallback: "\<not> meeting_agreed (fallback_turns ags n)"
  by (rule meeting_agreed_no_intent) (simp add: fallback_turns_text generic_reply_searches)

section \<open>Runs in which no adapter has a client\<close>

lemma fresh_provider_cases:
  assumes "providers (fresh_chat env a b r) (name (agent_at (a, b) i)) = Some p"
  shows "p = Provider_init env a \<or> p = Provider_init env b"
  using assms agent_at_cases [of a b i] by (auto simp: fresh_chat_def split: if_splits)

lemma fallback_run:
  assumes da: "\<not> enabled (Provider_init env a)" and db: "\<not> enabled (Provider_init env b)"
    and kick: "\<not> re_search MEETING_RE (kickoff_of a)"
  shows "turns_of (construct_and_run env a b r R)
           = Some (fallback_turns (a, b) (nat (max_messages r)))"
proof -
  let ?base = "\<lambda>c::TwoAgentChat. agents c = (a, b) \<and> run c = r
              \<and> providers c = providers (fresh_chat env a b r)"
  let ?P = "\<lambda>(c::TwoAgentChat) (i::nat) (k::nat). ?base c \<and> i = k mod 2
              \<and> int k \<le> max 0 (max_messages r) \<and> turns c = fallback_turns (a, b) k"
  let ?Q = "\<lambda>c::TwoAgentChat. turns c = fallback_turns (a, b) (nat (max_messages r))"
  have appended: "\<And>c i k p. ?P c i k \<Longrightarrow> int k < max_messages (run c)
      \<Longrightarrow> providers c (name (agent_at (agents c) i)) = Some p
      \<Longrightarrow> ?P (take_turn (R k) c (agent_at (agents c) i) p) (1 - i) (Suc k)"
  proof -
    fix c :: TwoAgentChat and i k :: nat and p :: Provider
    assume P: "?P c i k" and lt: "int k < max_messages (run c)"
      and p: "providers c (name (agent_at (agents c) i)) = Some p"
    let ?ag = "agent_at (agents c) i"
    let ?c' = "take_turn (R k) c ?ag p"
    have ag: "?ag = agent_at (a, b) (k mod 2)" using P by simp
    have "providers (fresh_chat env a b r) (name (agent_at (a, b) i)) = Some p"
      using P p by simp
    then have "\<not> enabled p" using fresh_provider_cases da db by blast
    then have t: "turns ?c' = turns c @ [\<lparr>speaker = name ?ag,
                       turn_text = (if re_search MEETING_RE (last_user (build_messages_for c ?ag))
                                    then meeting_reply else generic_reply)\<rparr>]"
      by (rule take_turn_fallback)
    have quiet: "\<not> re_search MEETING_RE (last_user (build_messages_for c ?ag))"
    proof (cases "turns c = []")
      case True
      then have "k = 0" using P by (cases k) (simp_all add: fallback_turns_Suc)
      then have "?ag = a" using ag by (simp add: agent_at_def)
      then show ?thesis using kick True by (simp add: last_user_kickoff)
    next
      case False
      then have "last_user (build_messages_for c ?ag) = []
                 \<or> last_user (build_messages_for c ?ag) \<in> turn_text ` set (turns c)"
        by (rule last_user_replay)
      then have "last_user (build_messages_for c ?ag) = []
                 \<or> last_user (build_messages_for c ?ag) = generic_reply"
        using P fallback_turns_text by auto
      then show ?thesis using empty_searches(1) generic_reply_searches(1) by auto
    qed
    have "turns ?c' = fallback_turns (a, b) (Suc k)"
      using t quiet P ag by (simp add: fallback_turns_Suc)
    moreover have "?base ?c'" using P by simp
    moreover have "1 - i = Suc k mod 2" using P by (intro flip_index) simp
    moreover have "int (Suc k) \<le> max 0 (max_messages r)" using P lt by simp
    ultimately show "?P ?c' (1 - i) (Suc k)" by blast
  qed
  have "?P (fresh_chat env a b r) 0 0" by (simp add: fallback_turns_def)
  then have "\<exists>c'. run_loop R (fresh_chat env a b r) 0 0 = Inr c' \<and> ?Q c'"
  proof (rule run_loop_rule [where P = ?P and Q = ?Q])
    fix c :: TwoAgentChat and i k :: nat
    assume P: "?P c i k"
    show "providers c (name (agent_at (agents c) i)) \<noteq> None"
      using P agent_at_cases [of a b i] by auto
  next
    fix c :: TwoAgentChat and i k :: nat and p :: Provider
    assume "?P c i k" "int k < max_messages (run c)"
      "providers c (name (agent_at (agents c) i)) = Some p"
    then show "?P (take_turn (R k) c (agent_at (agents c) i) p) (1 - i) (Suc k)"
      by (rule appended)
  next
    fix c :: TwoAgentChat and i k :: nat and p :: Provider
    assume P: "?P c i k" and lt: "int k < max_messages (run c)"
      and p: "providers c (name (agent_at (agents c) i)) = Some p"
      and m: "meeting_agreed (turns (take_turn (R k) c (agent_at (agents c) i) p))"
    have "turns (take_turn (R k) c (agent_at (agents c) i) p) = fallback_turns (a, b) (Suc k)"
      using appended [OF P lt p] by blast
    then have "meeting_agreed (fallback_turns (a, b) (Suc k))" using m by (simp only:)
    then show "?Q (take_turn (R k) c (agent_at (agents c) i) p)"
      using no_meeting_fallback by blast
  next
    fix c :: TwoAgentChat and i k :: nat
    assume P: "?P c i k" and ge: "\<not> int k < max_messages (run c)"
    then have "k = nat (max_messages r)" by auto
    then show "?Q c" using P by simp
  qed
  then show ?thesis by (auto simp: construct_and_run_fresh turns_of_def)
qed

lemma one_turn_run:
  assumes "max_messages r = 1"
  shows "turns_of (construct_and_run env a b r R)
           = Some (turns (take_turn (R 0) (fresh_chat env a b r) a
                     (if name a = name b then Provider_init env b else Provider_init env a)))"
proof -
  let ?c0 = "fresh_chat env a b r"
  let ?p = "if name a = name b then Provider_init env b else Provider_init env a"
  let ?c1 = "take_turn (R 0) ?c0 a ?p"
  have ag: "agent_at (agents ?c0) 0 = a" by (simp add: agent_at_def)
  have lt: "int 0 < max_messages (run ?c0)" using assms by simp
  have p: "providers ?c0 (name (agent_at (agents ?c0) 0)) = Some ?p"
    by (simp add: agent_at_def)
  have "length (turns ?c1) < 2" by (simp add: turns_take_turn)
  then have nm: "\<not> meeting_agreed (turns ?c1)" by (rule meeting_agreed_short)
  have "run_loop R ?c0 0 0 = run_loop R ?c1 (1 - 0) (Suc 0)"
    using run_loop_step [OF lt p, of R] nm by (simp only: ag if_False)
  also have "\<dots> = Inr ?c1"
    by (rule run_loop_stop) (simp add: assms)
  finally show ?thesis by (simp add: construct_and_run_fresh turns_of_def)
qed


section \<open>Facts about the example inputs\<close>

lemma no_credentials_disabled:
  "getenv env = (\<lambda>v. None) \<Longrightarrow> \<not> enabled (Provider_init env c)"
  by (simp add: Provider_init_def Let_def split: option.splits)

lemma ex_disabled [simp]: "\<not> enabled (Provider_init ex_env_none c)"
  by (rule no_credentials_disabled) (simp add: ex_env_none_def)

lemma ex_kickoffs:
  "kickoff_of ex_agent_a = ''Cria uma abertura leve e divertida.''"
  "kickoff_of ex_agent_inviting = ''Convida para um caf'' @ [CHR 0xE9] @ ''.''"
  "kickoff_of ex_agent_b = default_kickoff"
  "kickoff_of ex_agent_b_seeded = ''Responde com humor.''"
  by (simp_all add: kickoff_of_def ex_agent_a_def ex_agent_inviting_def ex_agent_b_def
                    ex_agent_b_seeded_def)

lemma ex_kickoff_searches:
  "\<not> re_search MEETING_RE (kickoff_of ex_agent_a)"
  "re_search MEETING_RE (kickoff_of ex_agent_inviting)"
  by (simp_all add: ex_kickoffs) (simp_all add: re_eval)

lemma ex_names [simp]:
  "name ex_agent_a = ''Homem (40)''" "name ex_agent_b = ''Mulher (35)''"
  "name ex_twin_b = ''Homem (40)''" "name ex_agent_inviting = ''Homem (40)''"
  "name ex_agent_b_seeded = ''Mulher (35)''"
  by (simp_all add: ex_agent_a_def ex_agent_b_def ex_twin_b_def ex_agent_inviting_def
                    ex_agent_b_seeded_def)

lemma ex_run_max [simp]: "max_messages (ex_run n) = n"
  by (simp add: ex_run_def)

lemma turns_of_Some: "turns_of res = Some ts \<longleftrightarrow> (\<exists>c. res = Inr c \<and> turns c = ts)"
  by (cases res) (auto simp: turns_of_def)

section \<open>The orchestrator: claims C2, C3, C6, C7\<close>











text \<open>
  C6, as the code has it. For every run, whatever the providers do and whether or not the
  detector fires, the number of recorded turns is at most the larger of 0 and
  \<open>max_messages\<close>: at most \<open>max_messages\<close> whenever that is not negative.
\<close>

theorem turn_count_bounded:
  "\<exists>c'. construct_and_run env a b r remotes = Inr c'
        \<and> int (length (turns c')) \<le> max 0 (max_messages r)
        \<and> (0 \<le> max_messages r \<longrightarrow> int (length (turns c')) \<le> max_messages r)"
proof -
  obtain c' where "construct_and_run env a b r remotes = Inr c'"
    and "int (length (turns c')) \<le> max 0 (max_messages r)"
    using run_general [of env a b r remotes] by blast
  then show ?thesis by auto
qed

theorem turn_count_bounded_witness:
  "0 \<le> max_messages (ex_run 3)
   \<and> (\<exists>c'. construct_and_run ex_env_key ex_agent_a ex_agent_b (ex_run 3) ex_remotes_blank
              = Inr c'
          \<and> length (turns c') \<le> 3)"
  using turn_count_bounded [of ex_env_key ex_agent_a ex_agent_b "ex_run 3" ex_remotes_blank]
  by auto

text \<open>
  C6 as stated fails for a negative budget: with \<open>max_messages = -1\<close> the loop body never
  runs, the history has 0 turns, and 0 is not at most -1.
\<close>

theorem negative_budget_exceeded:
  "turns_of (construct_and_run ex_env_none ex_agent_a ex_agent_b (ex_run (- 1)) ex_remotes)
     = Some []
   \<and> \<not> int (length ([] :: ConversationTurn list)) \<le> max_messages (ex_run (- 1))"
proof -
  have "run_loop ex_remotes (fresh_chat ex_env_none ex_agent_a ex_agent_b (ex_run (- 1))) 0 0
          = Inr (fresh_chat ex_env_none ex_agent_a ex_agent_b (ex_run (- 1)))"
    by (rule run_loop_stop) simp
  then show ?thesis by (simp add: construct_and_run_fresh turns_of_def)
qed

text \<open>
  C7, as the code has it. In every run the speaker of turn \<open>j\<close> is the name of the first
  agent for even \<open>j\<close> and the name of the second agent for odd \<open>j\<close>. When the two names
  differ, the speakers of consecutive turns differ.
\<close>

theorem speakers_alternate:
  "\<exists>c'. construct_and_run env a b r remotes = Inr c'
        \<and> (\<forall>j<length (turns c').
               speaker (turns c' ! j) = (if even j then name a else name b))
        \<and> (name a \<noteq> name b \<longrightarrow>
              (\<forall>i. Suc i < length (turns c') \<longrightarrow>
                 speaker (turns c' ! i) \<noteq> speaker (turns c' ! Suc i)))"
proof -
  obtain c' where c': "construct_and_run env a b r remotes = Inr c'"
    and good: "\<forall>j<length (turns c'). speaker (turns c' ! j) = name (agent_at (a, b) (j mod 2))
                 \<and> strip (turn_text (turns c' ! j)) \<noteq> []"
    using run_general [of env a b r remotes] by blast
  have at: "\<And>j. name (agent_at (a, b) (j mod 2)) = (if even j then name a else name b)"
    by (auto simp: agent_at_def even_iff_mod_2_eq_zero)
  have sp: "\<forall>j<length (turns c'). speaker (turns c' ! j) = (if even j then name a else name b)"
    using good at by simp
  have "name a \<noteq> name b \<longrightarrow>
              (\<forall>i. Suc i < length (turns c') \<longrightarrow>
                 speaker (turns c' ! i) \<noteq> speaker (turns c' ! Suc i))"
  proof (intro impI allI)
    fix i assume d: "name a \<noteq> name b" and i: "Suc i < length (turns c')"
    have "speaker (turns c' ! i) = (if even i then name a else name b)"
      using sp i by simp
    moreover have "speaker (turns c' ! Suc i) = (if even (Suc i) then name a else name b)"
      using sp i by blast
    ultimately show "speaker (turns c' ! i) \<noteq> speaker (turns c' ! Suc i)"
      using d by auto
  qed
  then show ?thesis using c' sp by blast
qed

theorem speakers_alternate_witness:
  "name ex_agent_a \<noteq> name ex_agent_b
   \<and> (\<exists>c'. construct_and_run ex_env_none ex_agent_a ex_agent_b (ex_run 2) ex_remotes = Inr c'
          \<and> length (turns c') = 2
          \<and> speaker (turns c' ! 0) = ''Homem (40)''
          \<and> speaker (turns c' ! 1) = ''Mulher (35)''
          \<and> speaker (turns c' ! 0) \<noteq> speaker (turns c' ! 1))"
proof -
  let ?res = "construct_and_run ex_env_none ex_agent_a ex_agent_b (ex_run 2) ex_remotes"
  have d: "name ex_agent_a \<noteq> name ex_agent_b" by simp
  have "turns_of ?res = Some (fallback_turns (ex_agent_a, ex_agent_b) (nat (max_messages (ex_run 2))))"
    by (rule fallback_run) (simp_all add: ex_kickoff_searches)
  then obtain c0 where c0: "?res = Inr c0" and len: "length (turns c0) = 2"
    by (auto simp: turns_of_Some)
  obtain c' where c': "?res = Inr c'"
    and sp: "\<forall>j<length (turns c'). speaker (turns c' ! j)
                = (if even j then name ex_agent_a else name ex_agent_b)"
    and alt: "name ex_agent_a \<noteq> name ex_agent_b \<longrightarrow>
              (\<forall>i. Suc i < length (turns c') \<longrightarrow>
                 speaker (turns c' ! i) \<noteq> speaker (turns c' ! Suc i))"
    using speakers_alternate [of ex_env_none ex_agent_a ex_agent_b "ex_run 2" ex_remotes]
    by blast
  have same: "c' = c0" using c0 c' by simp
  have l: "length (turns c') = 2" using len same by simp
  have "speaker (turns c' ! 0) = ''Homem (40)''" using sp l by simp
  moreover have "speaker (turns c' ! 1) = ''Mulher (35)''" using sp l by simp
  moreover have "speaker (turns c' ! 0) \<noteq> speaker (turns c' ! Suc 0)"
    using alt d l by simp
  ultimately show ?thesis using d c' l by auto
qed

text \<open>
  C7 as stated fails when the two agents share a name: both recorded turns of this run
  have the speaker \<^verbatim>\<open>Homem (40)\<close>.
\<close>

theorem same_name_same_speaker:
  "turns_of (construct_and_run ex_env_none ex_agent_a ex_twin_b (ex_run 2) ex_remotes)
     = Some [\<lparr>speaker = ''Homem (40)'', turn_text = generic_reply\<rparr>,
             \<lparr>speaker = ''Homem (40)'', turn_text = generic_reply\<rparr>]"
proof -
  have "turns_of (construct_and_run ex_env_none ex_agent_a ex_twin_b (ex_run 2) ex_remotes)
          = Some (fallback_turns (ex_agent_a, ex_twin_b) (nat (max_messages (ex_run 2))))"
    by (rule fallback_run) (simp_all add: ex_kickoff_searches)
  moreover have "fallback_turns (ex_agent_a, ex_twin_b) (nat (max_messages (ex_run 2)))
          = [\<lparr>speaker = ''Homem (40)'', turn_text = generic_reply\<rparr>,
             \<lparr>speaker = ''Homem (40)'', turn_text = generic_reply\<rparr>]"
    by (simp add: fallback_turns_def agent_at_def upt_rec)
  ultimately show ?thesis by simp
qed

section \<open>The message context: claim C4\<close>





section \<open>Runs on the local fallback: claims C5 and C10\<close>




text \<open>
  C10, as the code has it. For every message history whose last user-role message does
  not match \<open>MEETING_RE\<close>, the reply of the disabled adapter is the generic suggestion
  followed by the note \<^verbatim>\<open>(provider unavailable)\<close>, and it matches neither \<open>MEETING_RE\<close> nor
  \<open>ACCEPTANCE_RE\<close>. Consequently a run in which neither adapter is enabled and the first
  agent's kickoff text does not match \<open>MEETING_RE\<close> never records a turn that matches
  \<open>MEETING_RE\<close> or \<open>ACCEPTANCE_RE\<close>.
\<close>

theorem fallback_reply_is_quiet:
  "(\<not> re_search MEETING_RE (last_user messages) \<longrightarrow>
      stub messages ''(provider unavailable)''
        = suggestion_generic @ '' (provider unavailable)''
      \<and> (\<not> enabled p \<longrightarrow> generate remote p messages = stub messages ''(provider unavailable)'')
      \<and> \<not> re_search MEETING_RE (stub messages ''(provider unavailable)'')
      \<and> \<not> re_search ACCEPTANCE_RE (stub messages ''(provider unavailable)''))
   \<and> (\<not> enabled (Provider_init env a) \<and> \<not> enabled (Provider_init env b)
        \<and> \<not> re_search MEETING_RE (kickoff_of a) \<longrightarrow>
        (\<exists>c'. construct_and_run env a b r remotes = Inr c'
           \<and> (\<forall>t\<in>set (turns c'). \<not> re_search MEETING_RE (turn_text t)
                                   \<and> \<not> re_search ACCEPTANCE_RE (turn_text t))))"
proof (intro conjI impI)
  assume q: "\<not> re_search MEETING_RE (last_user messages)"
  have s: "stub messages ''(provider unavailable)'' = generic_reply"
    using q stub_unavailable [of messages] by (simp add: generic_reply_def)
  show "stub messages ''(provider unavailable)'' = suggestion_generic @ '' (provider unavailable)''"
    using s by (simp add: generic_reply_def)
  show "\<not> re_search MEETING_RE (stub messages ''(provider unavailable)'')"
    by (simp add: s generic_reply_searches(1))
  show "\<not> re_search ACCEPTANCE_RE (stub messages ''(provider unavailable)'')"
    by (simp add: s generic_reply_searches(2))
next
  assume "\<not> re_search MEETING_RE (last_user messages)" and "\<not> enabled p"
  then show "generate remote p messages = stub messages ''(provider unavailable)''"
    by (simp add: generate_disabled)
next
  assume h: "\<not> enabled (Provider_init env a) \<and> \<not> enabled (Provider_init env b)
        \<and> \<not> re_search MEETING_RE (kickoff_of a)"
  have "turns_of (construct_and_run env a b r remotes)
          = Some (fallback_turns (a, b) (nat (max_messages r)))"
    using h by (intro fallback_run) simp_all
  then obtain c' where c': "construct_and_run env a b r remotes = Inr c'"
    and t: "turns c' = fallback_turns (a, b) (nat (max_messages r))"
    by (auto simp: turns_of_Some)
  have "\<forall>t\<in>set (turns c'). \<not> re_search MEETING_RE (turn_text t)
                                   \<and> \<not> re_search ACCEPTANCE_RE (turn_text t)"
    using t fallback_turns_text generic_reply_searches by auto
  then show "\<exists>c'. construct_and_run env a b r remotes = Inr c'
           \<and> (\<forall>t\<in>set (turns c'). \<not> re_search MEETING_RE (turn_text t)
                                   \<and> \<not> re_search ACCEPTANCE_RE (turn_text t))"
    using c' by blast
qed

theorem fallback_reply_is_quiet_witness:
  "\<not> re_search MEETING_RE (last_user ex_messages)
   \<and> generate ex_remote_raises (Provider_init ex_env_none ex_agent_b) ex_messages
       = ''Adoro a energia. Que tal marcarmos algo leve para nos conhecermos? (provider unavailable)''
   \<and> \<not> re_search MEETING_RE
         ''Adoro a energia. Que tal marcarmos algo leve para nos conhecermos? (provider unavailable)''
   \<and> \<not> re_search ACCEPTANCE_RE
         ''Adoro a energia. Que tal marcarmos algo leve para nos conhecermos? (provider unavailable)''
   \<and> \<not> re_search MEETING_RE (kickoff_of ex_agent_a)
   \<and> (\<exists>c'. construct_and_run ex_env_none ex_agent_a ex_agent_b (ex_run 2) ex_remotes = Inr c'
          \<and> turns c' \<noteq> []
          \<and> \<not> re_search MEETING_RE (turn_text (hd (turns c'))))"
proof -
  let ?p = "Provider_init ex_env_none ex_agent_b"
  have q: "\<not> re_search MEETING_RE (last_user ex_messages)"
    using scenario_B_searches by (simp add: ex_messages_last_user)
  have d: "\<not> enabled ?p" by simp
  note inst = fallback_reply_is_quiet
               [of ex_messages ?p ex_remote_raises ex_env_none ex_agent_a ex_agent_b
                   "ex_run 2" ex_remotes]
  have s: "stub ex_messages ''(provider unavailable)''
             = suggestion_generic @ '' (provider unavailable)''"
    and g: "generate ex_remote_raises ?p ex_messages = stub ex_messages ''(provider unavailable)''"
    and m: "\<not> re_search MEETING_RE (stub ex_messages ''(provider unavailable)'')"
    and ac: "\<not> re_search ACCEPTANCE_RE (stub ex_messages ''(provider unavailable)'')"
    using inst q d by blast+
  have literal: "suggestion_generic @ '' (provider unavailable)''
     = ''Adoro a energia. Que tal marcarmos algo leve para nos conhecermos? (provider unavailable)''"
    by (simp add: suggestion_generic_def)
  have k: "\<not> re_search MEETING_RE (kickoff_of ex_agent_a)" by (rule ex_kickoff_searches(1))
  obtain c' where c': "construct_and_run ex_env_none ex_agent_a ex_agent_b (ex_run 2) ex_remotes = Inr c'"
    and quiet: "\<forall>t\<in>set (turns c'). \<not> re_search MEETING_RE (turn_text t)
                                   \<and> \<not> re_search ACCEPTANCE_RE (turn_text t)"
    using inst k by auto
  have "turns_of (construct_and_run ex_env_none ex_agent_a ex_agent_b (ex_run 2) ex_remotes)
          = Some (fallback_turns (ex_agent_a, ex_agent_b) (nat (max_messages (ex_run 2))))"
    by (rule fallback_run) (simp_all add: k)
  then have "length (turns c') = 2" using c' by (simp add: turns_of_def)
  then have ne: "turns c' \<noteq> []" by auto
  then have "\<not> re_search MEETING_RE (turn_text (hd (turns c')))" using quiet by simp
  then show ?thesis using q g s m ac k c' ne unfolding literal [symmetric] by (auto simp: s)
qed

text \<open>
  The consequence drawn in C10 fails as stated: in this run neither adapter is enabled,
  and the one recorded turn is the fallback's proposal of a coffee, which matches
  \<open>MEETING_RE\<close>.
\<close>

theorem fallback_can_propose:
  "\<not> enabled (Provider_init ex_env_none ex_agent_inviting)
   \<and> \<not> enabled (Provider_init ex_env_none ex_agent_b)
   \<and> turns_of (construct_and_run ex_env_none ex_agent_inviting ex_agent_b (ex_run 1) ex_remotes)
       = Some [\<lparr>speaker = ''Homem (40)'', turn_text = meeting_reply\<rparr>]
   \<and> re_search MEETING_RE meeting_reply"
proof -
  let ?c0 = "fresh_chat ex_env_none ex_agent_inviting ex_agent_b (ex_run 1)"
  have "turns_of (construct_and_run ex_env_none ex_agent_inviting ex_agent_b (ex_run 1) ex_remotes)
          = Some (turns (take_turn (ex_remotes 0) ?c0 ex_agent_inviting
                     (Provider_init ex_env_none ex_agent_inviting)))"
    using one_turn_run [of "ex_run 1" ex_env_none ex_agent_inviting ex_agent_b ex_remotes]
    by simp
  moreover have "turns (take_turn (ex_remotes 0) ?c0 ex_agent_inviting
                     (Provider_init ex_env_none ex_agent_inviting))
                 = [\<lparr>speaker = ''Homem (40)'', turn_text = meeting_reply\<rparr>]"
    using take_turn_fallback [of "Provider_init ex_env_none ex_agent_inviting" "ex_remotes 0"
            ?c0 ex_agent_inviting]
    by (simp add: last_user_kickoff ex_kickoff_searches)
  ultimately show ?thesis using meeting_reply_search by simp
qed

end
